theory Spec2Isabelle
  imports Complex_Main "HOL-Library.Multiset" "HOL-Library.Signed_Division" "HOL-Library.Sublist"
begin

section \<open>The Myers difference algorithm of myers-diff.cpp\<close>

text \<open>
  The development embeds the two functions of \<^verbatim>\<open>myers-diff.cpp\<close>,
  \<^verbatim>\<open>FindMiddleSnake\<close> and \<^verbatim>\<open>ShortestEditScript\<close>, together with the
  class \<^verbatim>\<open>V\<close> of offset-indexed arrays they work on.

  C++ \<^verbatim>\<open>int\<close> values are modelled by unbounded integers: every number the
  program computes is bounded by a small multiple of \<^verbatim>\<open>N + M\<close>, so no
  wrap-around occurs for sequences of fewer than \<open>2 ^ 29\<close> elements.

  What C++ leaves undefined is an explicit error value of the model: an access outside
  an array, and the read of an array cell that was never written.
\<close>

subsection \<open>Errors\<close>

datatype error = OutOfBounds | Uninitialised

definition ebind :: "error + 'a \<Rightarrow> ('a \<Rightarrow> error + 'b) \<Rightarrow> error + 'b" where
  "ebind m f = (case m of Inl e \<Rightarrow> Inl e | Inr x \<Rightarrow> f x)"

subsection \<open>The class V\<close>

text \<open>
  \<^verbatim>\<open>V(start, end)\<close> allocates \<^verbatim>\<open>new int[end - start + 1]\<close>, whose cells are
  not initialised (\<open>None\<close>); \<^verbatim>\<open>operator[](index)\<close> is the cell
  \<^verbatim>\<open>i_[index - start_]\<close>, read or written.
\<close>

record V =
  V_start :: int
  V_end :: int
  V_i :: "int option list"

definition V_new :: "int \<Rightarrow> int \<Rightarrow> V" where
  "V_new s e = \<lparr>V_start = s, V_end = e, V_i = replicate (nat (e - s + 1)) None\<rparr>"

definition V_get :: "V \<Rightarrow> int \<Rightarrow> error + int" where
  "V_get v index =
     (let j = index - V_start v in
      if 0 \<le> j \<and> j < int (length (V_i v)) then
        (case V_i v ! nat j of None \<Rightarrow> Inl Uninitialised | Some x \<Rightarrow> Inr x)
      else Inl OutOfBounds)"

definition V_set :: "V \<Rightarrow> int \<Rightarrow> int \<Rightarrow> error + V" where
  "V_set v index x =
     (let j = index - V_start v in
      if 0 \<le> j \<and> j < int (length (V_i v)) then Inr (v\<lparr>V_i := (V_i v)[nat j := Some x]\<rparr>)
      else Inl OutOfBounds)"

subsection \<open>Sequences\<close>

text \<open>
  A sequence argument \<^verbatim>\<open>const int old_sequence[]\<close> is a pointer into an array: the
  array and the position the pointer refers to. \<^verbatim>\<open>old_sequence + u\<close> moves the
  position, \<^verbatim>\<open>old_sequence[i]\<close> reads relative to it.
\<close>

type_synonym seq = "int list \<times> int"

definition seq_get :: "seq \<Rightarrow> int \<Rightarrow> error + int" where
  "seq_get p i =
     (let j = snd p + i in
      if 0 \<le> j \<and> j < int (length (fst p)) then Inr (fst p ! nat j) else Inl OutOfBounds)"

definition seq_add :: "seq \<Rightarrow> int \<Rightarrow> seq" where
  "seq_add p u = (fst p, snd p + u)"

subsection \<open>FindMiddleSnake\<close>

text \<open>The five-tuple \<^verbatim>\<open>(D, x, y, u, v)\<close> that \<^verbatim>\<open>FindMiddleSnake\<close> returns.\<close>

type_synonym snake = "int \<times> int \<times> int \<times> int \<times> int"

text \<open>
  The static local arrays \<^verbatim>\<open>Vf\<close> and \<^verbatim>\<open>Vb\<close>: \<open>None\<close> until control first
  passes their declarations, the two arrays from then on.
\<close>

type_synonym statics = "(V \<times> V) option"

text \<open>The snake loop of the forward pass (line 105).\<close>

function snake_fwd :: "seq \<Rightarrow> int \<Rightarrow> seq \<Rightarrow> int \<Rightarrow> int \<Rightarrow> int \<Rightarrow> error + (int \<times> int)" where
  "snake_fwd old N new M x y =
     (if x < N \<and> y < M then
        (case seq_get old x of
           Inl e \<Rightarrow> Inl e
         | Inr a \<Rightarrow>
            (case seq_get new y of
               Inl e \<Rightarrow> Inl e
             | Inr b \<Rightarrow> if a = b then snake_fwd old N new M (x + 1) (y + 1) else Inr (x, y)))
      else Inr (x, y))"
  by pat_completeness auto
termination
  by (relation "measure (\<lambda>(old, N, new, M, x, y). nat (N - x))") auto

declare snake_fwd.simps [simp del]

text \<open>The snake loop of the backward pass (line 129).\<close>

function snake_bwd :: "seq \<Rightarrow> int \<Rightarrow> seq \<Rightarrow> int \<Rightarrow> int \<Rightarrow> int \<Rightarrow> error + (int \<times> int)" where
  "snake_bwd old N new M x y =
     (if x < N \<and> y < M then
        (case seq_get old (N - x - 1) of
           Inl e \<Rightarrow> Inl e
         | Inr a \<Rightarrow>
            (case seq_get new (M - y - 1) of
               Inl e \<Rightarrow> Inl e
             | Inr b \<Rightarrow> if a = b then snake_bwd old N new M (x + 1) (y + 1) else Inr (x, y)))
      else Inr (x, y))"
  by pat_completeness auto
termination
  by (relation "measure (\<lambda>(old, N, new, M, x, y). nat (N - x))") auto

declare snake_bwd.simps [simp del]

text \<open>
  The choice of the starting \<open>x\<close> on diagonal \<open>k\<close> (lines 91 to 98 and 120 to 125),
  with the short-circuit evaluation of the condition.
\<close>

definition pick_x :: "V \<Rightarrow> int \<Rightarrow> int \<Rightarrow> error + int" where
  "pick_x W D k =
     (if k = - D then V_get W (k + 1)
      else if k \<noteq> D then
        ebind (V_get W (k - 1)) (\<lambda>a.
        ebind (V_get W (k + 1)) (\<lambda>b.
        if a < b then Inr b else Inr (a + 1)))
      else ebind (V_get W (k - 1)) (\<lambda>a. Inr (a + 1)))"

text \<open>
  One iteration of the forward loop over \<open>k\<close> (lines 91 to 117): the new \<open>Vf\<close>, and the
  returned tuple when the overlap check succeeds.
\<close>

definition forward_body ::
  "seq \<Rightarrow> int \<Rightarrow> seq \<Rightarrow> int \<Rightarrow> int \<Rightarrow> int \<Rightarrow> int \<Rightarrow> V \<Rightarrow> V \<Rightarrow> error + (V \<times> snake option)" where
  "forward_body old N new M Delta D k Vf Vb =
     ebind (pick_x Vf D k) (\<lambda>x_i.
     let y_i = x_i - k in
     ebind (snake_fwd old N new M x_i y_i) (\<lambda>(x, y).
     ebind (V_set Vf k x) (\<lambda>Vf'.
     if \<bar>Delta smod 2\<bar> = 1 \<and> - (k - Delta) \<ge> - (D - 1) \<and> - (k - Delta) \<le> D - 1 then
       ebind (V_get Vf' k) (\<lambda>a.
       ebind (V_get Vb (- (k - Delta))) (\<lambda>b.
       if a + b \<ge> N then Inr (Vf', Some (2 * D - 1, x_i, y_i, x, y))
       else Inr (Vf', None)))
     else Inr (Vf', None))))"

text \<open>One iteration of the backward loop over \<open>k\<close> (lines 120 to 138).\<close>

definition backward_body ::
  "seq \<Rightarrow> int \<Rightarrow> seq \<Rightarrow> int \<Rightarrow> int \<Rightarrow> int \<Rightarrow> int \<Rightarrow> V \<Rightarrow> V \<Rightarrow> error + (V \<times> snake option)" where
  "backward_body old N new M Delta D k Vf Vb =
     ebind (pick_x Vb D k) (\<lambda>x_i.
     let y_i = x_i - k in
     ebind (snake_bwd old N new M x_i y_i) (\<lambda>(x, y).
     ebind (V_set Vb k x) (\<lambda>Vb'.
     if Delta smod 2 = 0 \<and> - (k - Delta) \<ge> - D \<and> - (k - Delta) \<le> D then
       ebind (V_get Vb' k) (\<lambda>a.
       ebind (V_get Vf (- (k - Delta))) (\<lambda>b.
       if a + b \<ge> N then Inr (Vb', Some (2 * D, N - x, M - y, N - x_i, M - y_i))
       else Inr (Vb', None)))
     else Inr (Vb', None))))"

text \<open>The loops \<^verbatim>\<open>for (int k = -D; k <= D; k += 2)\<close> of lines 90 and 119.\<close>

function forward_loop ::
  "seq \<Rightarrow> int \<Rightarrow> seq \<Rightarrow> int \<Rightarrow> int \<Rightarrow> int \<Rightarrow> int \<Rightarrow> V \<Rightarrow> V \<Rightarrow> error + (V \<times> snake option)" where
  "forward_loop old N new M Delta D k Vf Vb =
     (if k \<le> D then
        (case forward_body old N new M Delta D k Vf Vb of
           Inl e \<Rightarrow> Inl e
         | Inr (Vf', Some r) \<Rightarrow> Inr (Vf', Some r)
         | Inr (Vf', None) \<Rightarrow> forward_loop old N new M Delta D (k + 2) Vf' Vb)
      else Inr (Vf, None))"
  by pat_completeness auto
termination
  by (relation "measure (\<lambda>(old, N, new, M, Delta, D, k, Vf, Vb). nat (D + 1 - k))") auto

declare forward_loop.simps [simp del]

function backward_loop ::
  "seq \<Rightarrow> int \<Rightarrow> seq \<Rightarrow> int \<Rightarrow> int \<Rightarrow> int \<Rightarrow> int \<Rightarrow> V \<Rightarrow> V \<Rightarrow> error + (V \<times> snake option)" where
  "backward_loop old N new M Delta D k Vf Vb =
     (if k \<le> D then
        (case backward_body old N new M Delta D k Vf Vb of
           Inl e \<Rightarrow> Inl e
         | Inr (Vb', Some r) \<Rightarrow> Inr (Vb', Some r)
         | Inr (Vb', None) \<Rightarrow> backward_loop old N new M Delta D (k + 2) Vf Vb')
      else Inr (Vb, None))"
  by pat_completeness auto
termination
  by (relation "measure (\<lambda>(old, N, new, M, Delta, D, k, Vf, Vb). nat (D + 1 - k))") auto

declare backward_loop.simps [simp del]

text \<open>
  The loop \<^verbatim>\<open>for (int D = 0; D <= std::ceil(MAX / 2.0); D++)\<close> of line 89. Its result
  is the returned tuple, \<open>None\<close> when the loop runs to its end, and the two arrays.
\<close>

function D_loop ::
  "seq \<Rightarrow> int \<Rightarrow> seq \<Rightarrow> int \<Rightarrow> int \<Rightarrow> int \<Rightarrow> int \<Rightarrow> V \<Rightarrow> V \<Rightarrow> error + (snake option \<times> V \<times> V)" where
  "D_loop old N new M Delta MAX' D Vf Vb =
     (if real_of_int D \<le> real_of_int \<lceil>real_of_int MAX' / 2\<rceil> then
        (case forward_loop old N new M Delta D (- D) Vf Vb of
           Inl e \<Rightarrow> Inl e
         | Inr (Vf', Some r) \<Rightarrow> Inr (Some r, Vf', Vb)
         | Inr (Vf', None) \<Rightarrow>
            (case backward_loop old N new M Delta D (- D) Vf' Vb of
               Inl e \<Rightarrow> Inl e
             | Inr (Vb', Some r) \<Rightarrow> Inr (Some r, Vf', Vb')
             | Inr (Vb', None) \<Rightarrow> D_loop old N new M Delta MAX' (D + 1) Vf' Vb'))
      else Inr (None, Vf, Vb))"
  by pat_completeness auto
termination
  by (relation "measure (\<lambda>(old, N, new, M, Delta, MAX', D, Vf, Vb).
        nat (\<lceil>real_of_int MAX' / 2\<rceil> + 1 - D))") auto

declare D_loop.simps [simp del]

text \<open>
  \<^verbatim>\<open>FindMiddleSnake\<close> (lines 68 to 142). The declarations
  \<^verbatim>\<open>static V Vf(-MAX, MAX); static V Vb(-MAX, MAX);\<close> construct the arrays in the
  first call only, with that call's \<^verbatim>\<open>MAX\<close>; when the loop over \<open>D\<close> runs to its
  end, \<^verbatim>\<open>return {}\<close> yields the value-initialised tuple of five zeros.
\<close>

definition static_V :: "statics \<Rightarrow> int \<Rightarrow> V \<times> V" where
  "static_V st MAX' =
     (case st of None \<Rightarrow> (V_new (- MAX') MAX', V_new (- MAX') MAX') | Some vs \<Rightarrow> vs)"

definition FindMiddleSnake ::
  "seq \<Rightarrow> int \<Rightarrow> seq \<Rightarrow> int \<Rightarrow> statics \<Rightarrow> error + (snake \<times> statics)" where
  "FindMiddleSnake old N new M st =
     (let Delta = N - M;
          MAX' = M + N
      in
      ebind (V_set (fst (static_V st MAX')) 1 0) (\<lambda>Vf.
      ebind (V_set (snd (static_V st MAX')) 1 0) (\<lambda>Vb.
      ebind (D_loop old N new M Delta MAX' 0 Vf Vb) (\<lambda>(r, Vf', Vb').
      case r of
        Some t \<Rightarrow> Inr (t, Some (Vf', Vb'))
      | None \<Rightarrow> Inr ((0, 0, 0, 0, 0), Some (Vf', Vb'))))))"

subsection \<open>ShortestEditScript\<close>

text \<open>
  \<^verbatim>\<open>Diff\<close> is \<^verbatim>\<open>std::multiset<std::pair<int, std::string>>\<close>: a multiset of
  positions tagged \<^verbatim>\<open>"del"\<close> or \<^verbatim>\<open>"add"\<close>.
\<close>

type_synonym Diff = "(int \<times> string) multiset"

text \<open>
  The loops of lines 199 to 202 and 206 to 209. Each iteration prints the element it
  reads from the sequence and inserts one pair; the printed text is not modelled, the
  read is.
\<close>

function del_loop :: "seq \<Rightarrow> int \<Rightarrow> int \<Rightarrow> int \<Rightarrow> Diff \<Rightarrow> error + Diff" where
  "del_loop old N current_x i rtn =
     (if i < N then
        (case seq_get old i of
           Inl e \<Rightarrow> Inl e
         | Inr a \<Rightarrow> del_loop old N current_x (i + 1) (add_mset (current_x + i, ''del'') rtn))
      else Inr rtn)"
  by pat_completeness auto
termination
  by (relation "measure (\<lambda>(old, N, current_x, i, rtn). nat (N - i))") auto

declare del_loop.simps [simp del]

function add_loop :: "seq \<Rightarrow> int \<Rightarrow> int \<Rightarrow> int \<Rightarrow> Diff \<Rightarrow> error + Diff" where
  "add_loop new M current_y i rtn =
     (if i < M then
        (case seq_get new i of
           Inl e \<Rightarrow> Inl e
         | Inr a \<Rightarrow> add_loop new M current_y (i + 1) (add_mset (current_y + i, ''add'') rtn))
      else Inr rtn)"
  by pat_completeness auto
termination
  by (relation "measure (\<lambda>(new, M, current_y, i, rtn). nat (M - i))") auto

declare add_loop.simps [simp del]

text \<open>
  \<^verbatim>\<open>ShortestEditScript\<close> (lines 164 to 213). The recursion follows the tuples
  that \<^verbatim>\<open>FindMiddleSnake\<close> returns, so the model counts the depth of the calls:
  \<open>None\<close> is a recursion deeper than the given bound. The static arrays are threaded
  through the calls in the order the program makes them.
\<close>

fun ShortestEditScript ::
  "nat \<Rightarrow> seq \<Rightarrow> int \<Rightarrow> seq \<Rightarrow> int \<Rightarrow> int \<Rightarrow> int \<Rightarrow> statics \<Rightarrow> (error + (Diff \<times> statics)) option" where
  "ShortestEditScript 0 old N new M current_x current_y st = None"
| "ShortestEditScript (Suc depth) old N new M current_x current_y st =
     (if N > 0 \<and> M > 0 then
        (case FindMiddleSnake old N new M st of
           Inl e \<Rightarrow> Some (Inl e)
         | Inr ((D, x, y, u, v), st1) \<Rightarrow>
            if D > 1 \<or> (x \<noteq> u \<and> y \<noteq> v) then
              (case ShortestEditScript depth old x new y current_x current_y st1 of
                 None \<Rightarrow> None
               | Some (Inl e) \<Rightarrow> Some (Inl e)
               | Some (Inr (rtn1, st2)) \<Rightarrow>
                  (case ShortestEditScript depth (seq_add old u) (N - u) (seq_add new v) (M - v)
                          (current_x + u) (current_y + v) st2 of
                     None \<Rightarrow> None
                   | Some (Inl e) \<Rightarrow> Some (Inl e)
                   | Some (Inr (rtn2, st3)) \<Rightarrow> Some (Inr (rtn1 + rtn2, st3))))
            else if M > N then
              ShortestEditScript depth (seq_add old N) (N - N) (seq_add new N) (M - N)
                (current_x + N) (current_y + N) st1
            else if M < N then
              ShortestEditScript depth (seq_add old M) (N - M) (seq_add new M) (M - M)
                (current_x + M) (current_y + M) st1
            else Some (Inr ({#}, st1)))
      else if N > 0 then
        (case del_loop old N current_x 0 {#} of
           Inl e \<Rightarrow> Some (Inl e)
         | Inr rtn \<Rightarrow> Some (Inr (rtn, st)))
      else if M > 0 then
        (case add_loop new M current_y 0 {#} of
           Inl e \<Rightarrow> Some (Inl e)
         | Inr rtn \<Rightarrow> Some (Inr (rtn, st)))
      else Some (Inr ({#}, st)))"
section \<open>Notions for the statements and the proofs\<close>

text \<open>
  Nothing in this section is code of the program. It holds the notions the properties are
  stated with (the length of a longest common subsequence, the application of an edit
  script) and the ones the proofs go through (the furthest reaching points of the search,
  written as pure functions of the two sequences).
\<close>

subsection \<open>Longest common subsequence and edit distance\<close>

text \<open>
  \<open>lcs xs ys\<close> is the length of a longest common subsequence of \<open>xs\<close> and \<open>ys\<close>
  (lemmas \<open>lcs_upper\<close> and \<open>lcs_attained\<close> below), and \<open>ed xs ys\<close> the number of
  deletions and insertions that the elements outside such a subsequence need.
\<close>

fun lcs :: "int list \<Rightarrow> int list \<Rightarrow> nat" where
  "lcs [] ys = 0"
| "lcs (x # xs) [] = 0"
| "lcs (x # xs) (y # ys) =
     (if x = y then Suc (lcs xs ys) else max (lcs (x # xs) ys) (lcs xs (y # ys)))"

definition ed :: "int list \<Rightarrow> int list \<Rightarrow> int" where
  "ed xs ys = int (length xs) + int (length ys) - 2 * int (lcs xs ys)"
subsection \<open>Furthest reaching points\<close>

text \<open>
  \<open>slide a b x y\<close> follows the diagonal from \<open>(x, y)\<close> while the elements agree, and
  \<open>fr a b D k\<close> is the value that the search on \<open>a\<close> and \<open>b\<close> stores for diagonal \<open>k\<close>
  in round \<open>D\<close>: the slide from \<open>start a b D k\<close>, the better of the two neighbours of the
  round before. \<open>reach a b d x y\<close> says that \<open>(x, y)\<close> is reached from the origin with
  exactly \<open>d\<close> horizontal and vertical steps, diagonal steps only over equal elements.
\<close>

function slide :: "int list \<Rightarrow> int list \<Rightarrow> int \<Rightarrow> int \<Rightarrow> int" where
  "slide a b x y =
     (if x < int (length a) \<and> y < int (length b) \<and> a ! nat x = b ! nat y
      then slide a b (x + 1) (y + 1) else x)"
  by pat_completeness auto
termination
  by (relation "measure (\<lambda>(a, b, x, y). nat (int (length a) - x))") auto

declare slide.simps [simp del]

function fr :: "int list \<Rightarrow> int list \<Rightarrow> int \<Rightarrow> int \<Rightarrow> int" where
  "fr a b D k =
     (if D \<le> 0 then slide a b 0 (0 - k)
      else if k = - D then slide a b (fr a b (D - 1) (k + 1)) (fr a b (D - 1) (k + 1) - k)
      else if k \<noteq> D \<and> fr a b (D - 1) (k - 1) < fr a b (D - 1) (k + 1)
        then slide a b (fr a b (D - 1) (k + 1)) (fr a b (D - 1) (k + 1) - k)
      else slide a b (fr a b (D - 1) (k - 1) + 1) (fr a b (D - 1) (k - 1) + 1 - k))"
  by pat_completeness auto
termination
  by (relation "measure (\<lambda>(a, b, D, k). nat D)") auto

declare fr.simps [simp del]


inductive reach :: "int list \<Rightarrow> int list \<Rightarrow> int \<Rightarrow> int \<Rightarrow> int \<Rightarrow> bool" for a b where
  reach_0: "reach a b 0 0 0"
| reach_right: "reach a b d x y \<Longrightarrow> reach a b (d + 1) (x + 1) y"
| reach_down: "reach a b d x y \<Longrightarrow> reach a b (d + 1) x (y + 1)"
| reach_diag: "reach a b d x y \<Longrightarrow> x < int (length a) \<Longrightarrow> y < int (length b) \<Longrightarrow>
     a ! nat x = b ! nat y \<Longrightarrow> reach a b d (x + 1) (y + 1)"






subsection \<open>Sequences and static arrays of a call\<close>




definition same_shape :: "V \<Rightarrow> V \<Rightarrow> bool" where
  "same_shape W W' \<longleftrightarrow> V_start W' = V_start W \<and> V_end W' = V_end W \<and> length (V_i W') = length (V_i W)"


definition round_cells :: "V \<Rightarrow> int list \<Rightarrow> int list \<Rightarrow> int \<Rightarrow> int \<Rightarrow> bool" where
  "round_cells W a b D k \<longleftrightarrow>
     (\<forall>j. - D \<le> j \<and> j < k \<and> even (D - j) \<longrightarrow> V_get W j = Inr (fr a b D j))"


subsection \<open>Edit scripts\<close>






section \<open>Properties\<close>

subsection \<open>The error monad and the base cases\<close>

lemma ebind_Inl [simp]: "ebind (Inl e) f = Inl e"
  by (simp add: ebind_def)

lemma ebind_Inr [simp]: "ebind (Inr x) f = f x"
  by (simp add: ebind_def)

lemma ebind_eq_Inr:
  "ebind m f = Inr r \<longleftrightarrow> (\<exists>x. m = Inr x \<and> f x = Inr r)"
  by (cases m) simp_all






subsection \<open>What the overlap checks return\<close>

lemma smod2_odd: "\<bar>Delta smod 2\<bar> = 1 \<longleftrightarrow> odd (Delta::int)"
  by (cases "Delta = 0") (simp_all add: signed_modulo_int_def abs_mult, presburger)

lemma smod2_even: "Delta smod 2 = 0 \<longleftrightarrow> even (Delta::int)"
  by (auto simp add: signed_modulo_int_def even_iff_mod_2_eq_zero sgn_if)

lemma snake_fwd_diag:
  "snake_fwd old N new M x y = Inr (x', y') \<Longrightarrow> x' - y' = x - y \<and> x \<le> x'"
proof (induction old N new M x y rule: snake_fwd.induct)
  case (1 old N new M x y)
  show ?case
  proof (cases "snake_fwd old N new M x y = snake_fwd old N new M (x + 1) (y + 1)")
    case False
    with "1.prems" have "x' = x \<and> y' = y"
      by (subst (asm) (1 2) snake_fwd.simps) (auto split: if_splits sum.splits)
    then show ?thesis by simp
  next
    case True
    show ?thesis
    proof (cases "x < N \<and> y < M")
      case False
      with "1.prems" show ?thesis by (subst (asm) snake_fwd.simps) simp
    next
      case inb: True
      show ?thesis
      proof (cases "seq_get old x")
        case (Inl e)
        with "1.prems" inb show ?thesis by (subst (asm) snake_fwd.simps) simp
      next
        case a: (Inr a)
        show ?thesis
        proof (cases "seq_get new y")
          case (Inl e)
          with "1.prems" inb a show ?thesis by (subst (asm) snake_fwd.simps) simp
        next
          case b: (Inr b)
          show ?thesis
          proof (cases "a = b")
            case False
            with "1.prems" inb a b show ?thesis by (subst (asm) snake_fwd.simps) simp
          next
            case eq: True
            from "1.prems" True have "snake_fwd old N new M (x + 1) (y + 1) = Inr (x', y')" by simp
            from "1.IH"[OF inb a b eq this] show ?thesis by simp
          qed
        qed
      qed
    qed
  qed
qed

lemma snake_bwd_diag:
  "snake_bwd old N new M x y = Inr (x', y') \<Longrightarrow> x' - y' = x - y \<and> x \<le> x'"
proof (induction old N new M x y rule: snake_bwd.induct)
  case (1 old N new M x y)
  show ?case
  proof (cases "snake_bwd old N new M x y = snake_bwd old N new M (x + 1) (y + 1)")
    case False
    with "1.prems" have "x' = x \<and> y' = y"
      by (subst (asm) (1 2) snake_bwd.simps) (auto split: if_splits sum.splits)
    then show ?thesis by simp
  next
    case True
    show ?thesis
    proof (cases "x < N \<and> y < M")
      case False
      with "1.prems" show ?thesis by (subst (asm) snake_bwd.simps) simp
    next
      case inb: True
      show ?thesis
      proof (cases "seq_get old (N - x - 1)")
        case (Inl e)
        with "1.prems" inb show ?thesis by (subst (asm) snake_bwd.simps) simp
      next
        case a: (Inr a)
        show ?thesis
        proof (cases "seq_get new (M - y - 1)")
          case (Inl e)
          with "1.prems" inb a show ?thesis by (subst (asm) snake_bwd.simps) simp
        next
          case b: (Inr b)
          show ?thesis
          proof (cases "a = b")
            case False
            with "1.prems" inb a b show ?thesis by (subst (asm) snake_bwd.simps) simp
          next
            case eq: True
            from "1.prems" True have "snake_bwd old N new M (x + 1) (y + 1) = Inr (x', y')" by simp
            from "1.IH"[OF inb a b eq this] show ?thesis by simp
          qed
        qed
      qed
    qed
  qed
qed

lemma forward_body_Some:
  assumes "forward_body old N new M Delta D k Vf Vb = Inr (Vf', Some (d, x, y, u, v))"
  shows "d = 2 * D - 1 \<and> odd Delta \<and> x - y = u - v \<and> x - y = k \<and> x \<le> u"
  using assms
  by (auto simp: forward_body_def ebind_eq_Inr Let_def smod2_odd split: if_splits dest: snake_fwd_diag)

lemma backward_body_Some:
  assumes "backward_body old N new M Delta D k Vf Vb = Inr (Vb', Some (d, x, y, u, v))"
  shows "d = 2 * D \<and> even Delta \<and> x - y = u - v \<and> x - y = N - M - k \<and> x \<le> u"
  using assms
  by (auto simp: backward_body_def ebind_eq_Inr Let_def smod2_even split: if_splits dest: snake_bwd_diag)

lemma forward_loop_Some:
  "forward_loop old N new M Delta D k Vf Vb = Inr (Vf', Some t) \<Longrightarrow>
   \<exists>k' W. k \<le> k' \<and> k' \<le> D \<and> forward_body old N new M Delta D k' W Vb = Inr (Vf', Some t)"
proof (induction old N new M Delta D k Vf Vb rule: forward_loop.induct)
  case (1 old N new M Delta D k Vf Vb)
  from "1.prems" have kD: "k \<le> D"
    by (subst (asm) forward_loop.simps) (simp split: if_splits)
  show ?case
  proof (cases "forward_body old N new M Delta D k Vf Vb")
    case (Inl e)
    with "1.prems" kD show ?thesis by (subst (asm) forward_loop.simps) simp
  next
    case (Inr p)
    obtain W r where p: "p = (W, r)" by (cases p)
    show ?thesis
    proof (cases r)
      case None
      with "1.prems" kD Inr p have "forward_loop old N new M Delta D (k + 2) W Vb = Inr (Vf', Some t)"
        by (subst (asm) forward_loop.simps) simp
      from "1.IH"[OF kD Inr[unfolded p] refl None this]
      obtain k' W' where "k + 2 \<le> k'" "k' \<le> D"
        "forward_body old N new M Delta D k' W' Vb = Inr (Vf', Some t)" by blast
      then show ?thesis by (intro exI[of _ k'] exI[of _ W']) simp
    next
      case (Some r')
      with "1.prems" kD Inr p have "W = Vf'" "r' = t"
        by (subst (asm) forward_loop.simps, simp)+
      with Inr p Some kD show ?thesis by blast
    qed
  qed
qed

lemma backward_loop_Some:
  "backward_loop old N new M Delta D k Vf Vb = Inr (Vb', Some t) \<Longrightarrow>
   \<exists>k' W. k \<le> k' \<and> k' \<le> D \<and> backward_body old N new M Delta D k' Vf W = Inr (Vb', Some t)"
proof (induction old N new M Delta D k Vf Vb rule: backward_loop.induct)
  case (1 old N new M Delta D k Vf Vb)
  from "1.prems" have kD: "k \<le> D"
    by (subst (asm) backward_loop.simps) (simp split: if_splits)
  show ?case
  proof (cases "backward_body old N new M Delta D k Vf Vb")
    case (Inl e)
    with "1.prems" kD show ?thesis by (subst (asm) backward_loop.simps) simp
  next
    case (Inr p)
    obtain W r where p: "p = (W, r)" by (cases p)
    show ?thesis
    proof (cases r)
      case None
      with "1.prems" kD Inr p have "backward_loop old N new M Delta D (k + 2) Vf W = Inr (Vb', Some t)"
        by (subst (asm) backward_loop.simps) simp
      from "1.IH"[OF kD Inr[unfolded p] refl None this]
      obtain k' W' where "k + 2 \<le> k'" "k' \<le> D"
        "backward_body old N new M Delta D k' Vf W' = Inr (Vb', Some t)" by blast
      then show ?thesis by (intro exI[of _ k'] exI[of _ W']) simp
    next
      case (Some r')
      with "1.prems" kD Inr p have "W = Vb'" "r' = t"
        by (subst (asm) backward_loop.simps, simp)+
      with Inr p Some kD show ?thesis by blast
    qed
  qed
qed

text \<open>A tuple returned from inside the loop over D comes from an overlap check.\<close>

lemma D_loop_Some:
  "D_loop old N new M Delta MAX' D Vf Vb = Inr (Some t, Vf', Vb') \<Longrightarrow>
   \<exists>D' k W1 W2 W3. D \<le> D' \<and> - D' \<le> k \<and> k \<le> D' \<and>
      (forward_body old N new M Delta D' k W1 W2 = Inr (W3, Some t) \<or>
       backward_body old N new M Delta D' k W1 W2 = Inr (W3, Some t))"
proof (induction old N new M Delta MAX' D Vf Vb rule: D_loop.induct)
  case (1 old N new M Delta MAX' D Vf Vb)
  from "1.prems" have b: "real_of_int D \<le> real_of_int \<lceil>real_of_int MAX' / 2\<rceil>"
    by (subst (asm) D_loop.simps) (simp split: if_splits)
  show ?case
  proof (cases "forward_loop old N new M Delta D (- D) Vf Vb")
    case (Inl e)
    with "1.prems" b show ?thesis by (subst (asm) D_loop.simps) simp
  next
    case (Inr p)
    obtain W r where p: "p = (W, r)" by (cases p)
    show ?thesis
    proof (cases r)
      case (Some r')
      with "1.prems" b Inr p have "r' = t" "W = Vf'"
        by (subst (asm) D_loop.simps, simp)+
      with Inr p Some forward_loop_Some[of old N new M Delta D "- D" Vf Vb Vf' t]
      show ?thesis by blast
    next
      case None
      note fNone = None
      show ?thesis
      proof (cases "backward_loop old N new M Delta D (- D) W Vb")
        case (Inl e)
        with "1.prems" b Inr p None show ?thesis by (subst (asm) D_loop.simps) simp
      next
        case (Inr q)
        note bw = Inr
        obtain W' r2 where q: "q = (W', r2)" by (cases q)
        show ?thesis
        proof (cases r2)
          case (Some r')
          with "1.prems" b \<open>forward_loop old N new M Delta D (- D) Vf Vb = Inr p\<close> p fNone bw q
          have "r' = t" "W' = Vb'"
            by (subst (asm) D_loop.simps, simp)+
          with bw q Some backward_loop_Some[of old N new M Delta D "- D" W Vb Vb' t]
          show ?thesis by blast
        next
          case None
          with "1.prems" b \<open>forward_loop old N new M Delta D (- D) Vf Vb = Inr p\<close> p fNone bw q
          have "D_loop old N new M Delta MAX' (D + 1) W W' = Inr (Some t, Vf', Vb')"
            by (subst (asm) D_loop.simps) simp
          from "1.IH"[OF b \<open>forward_loop old N new M Delta D (- D) Vf Vb = Inr p\<close>[unfolded p] refl fNone
                 bw[unfolded q] refl None this]
          obtain D' k W1 W2 W3 where "D + 1 \<le> D'" "- D' \<le> k" "k \<le> D'"
            "forward_body old N new M Delta D' k W1 W2 = Inr (W3, Some t) \<or>
             backward_body old N new M Delta D' k W1 W2 = Inr (W3, Some t)" by blast
          then show ?thesis by (intro exI[of _ D'] exI[of _ k] exI[of _ W1] exI[of _ W2] exI[of _ W3]) auto
        qed
      qed
    qed
  qed
qed

lemma FindMiddleSnake_Inr:
  assumes "FindMiddleSnake old N new M st = Inr (t, st')"
  shows "\<exists>Vf0 Vb0 r Vf' Vb'.
           V_set (fst (static_V st (M + N))) 1 0 = Inr Vf0 \<and>
           V_set (snd (static_V st (M + N))) 1 0 = Inr Vb0 \<and>
           D_loop old N new M (N - M) (M + N) 0 Vf0 Vb0 = Inr (r, Vf', Vb') \<and>
           st' = Some (Vf', Vb') \<and> t = (case r of Some t' \<Rightarrow> t' | None \<Rightarrow> (0, 0, 0, 0, 0))"
  using assms
  by (auto simp: FindMiddleSnake_def Let_def ebind_eq_Inr split: option.splits)

text \<open>
  Claim C8. Every tuple \<open>(D, x, y, u, v)\<close> that \<^verbatim>\<open>FindMiddleSnake\<close> returns has
  \<open>x - y = u - v\<close>: the start and the end of the snake lie on one diagonal. Hence the
  test \<^verbatim>\<open>D > 1 || (x != u && y != v)\<close> of \<^verbatim>\<open>ShortestEditScript\<close> is equivalent to
  \<^verbatim>\<open>D > 1 || x != u\<close> on every value \<^verbatim>\<open>FindMiddleSnake\<close> can return.
\<close>

theorem snake_on_one_diagonal:
  assumes "FindMiddleSnake old N new M st = Inr ((D, x, y, u, v), st')"
  shows "x - y = u - v \<and> ((D > 1 \<or> (x \<noteq> u \<and> y \<noteq> v)) \<longleftrightarrow> (D > 1 \<or> x \<noteq> u))"
proof -
  from FindMiddleSnake_Inr[OF assms] obtain Vf0 Vb0 r Vf' Vb' where
    dl: "D_loop old N new M (N - M) (M + N) 0 Vf0 Vb0 = Inr (r, Vf', Vb')"
    and t: "(D, x, y, u, v) = (case r of Some t' \<Rightarrow> t' | None \<Rightarrow> (0, 0, 0, 0, 0))"
    by blast
  have "x - y = u - v"
  proof (cases r)
    case None
    with t show ?thesis by simp
  next
    case (Some t')
    with t have "t' = (D, x, y, u, v)" by simp
    with dl Some D_loop_Some[of old N new M "N - M" "M + N" 0 Vf0 Vb0 "(D, x, y, u, v)" Vf' Vb']
    obtain D' k W1 W2 W3 where
      "forward_body old N new M (N - M) D' k W1 W2 = Inr (W3, Some (D, x, y, u, v)) \<or>
       backward_body old N new M (N - M) D' k W1 W2 = Inr (W3, Some (D, x, y, u, v))"
      by blast
    then show ?thesis
      using forward_body_Some[of old N new M "N - M" D' k W1 W2 W3 D x y u v]
        backward_body_Some[of old N new M "N - M" D' k W1 W2 W3 D x y u v] by blast
  qed
  then show ?thesis by auto
qed

subsection \<open>The static arrays\<close>


lemma V_set_bounds:
  "V_set W k x = Inr W' \<Longrightarrow>
   V_start W' = V_start W \<and> V_end W' = V_end W \<and> length (V_i W') = length (V_i W)"
  by (auto simp: V_set_def Let_def split: if_splits)

lemma forward_body_bounds:
  "forward_body old N new M Delta D k Vf Vb = Inr (Vf', r) \<Longrightarrow>
   V_start Vf' = V_start Vf \<and> V_end Vf' = V_end Vf \<and> length (V_i Vf') = length (V_i Vf)"
  by (auto simp: forward_body_def ebind_eq_Inr Let_def split: if_splits dest: V_set_bounds)

lemma backward_body_bounds:
  "backward_body old N new M Delta D k Vf Vb = Inr (Vb', r) \<Longrightarrow>
   V_start Vb' = V_start Vb \<and> V_end Vb' = V_end Vb \<and> length (V_i Vb') = length (V_i Vb)"
  by (auto simp: backward_body_def ebind_eq_Inr Let_def split: if_splits dest: V_set_bounds)

lemma forward_loop_bounds:
  "forward_loop old N new M Delta D k Vf Vb = Inr (Vf', r) \<Longrightarrow>
   V_start Vf' = V_start Vf \<and> V_end Vf' = V_end Vf \<and> length (V_i Vf') = length (V_i Vf)"
proof (induction old N new M Delta D k Vf Vb rule: forward_loop.induct)
  case (1 old N new M Delta D k Vf Vb)
  show ?case
  proof (cases "k \<le> D")
    case False
    with "1.prems" show ?thesis by (subst (asm) forward_loop.simps) simp
  next
    case kD: True
    show ?thesis
    proof (cases "forward_body old N new M Delta D k Vf Vb")
      case (Inl e)
      with "1.prems" kD show ?thesis by (subst (asm) forward_loop.simps) simp
    next
      case (Inr p)
      obtain W r' where p: "p = (W, r')" by (cases p)
      note b = forward_body_bounds[OF Inr[unfolded p]]
      show ?thesis
      proof (cases r')
        case None
        with "1.prems" kD Inr p have "forward_loop old N new M Delta D (k + 2) W Vb = Inr (Vf', r)"
          by (subst (asm) forward_loop.simps) simp
        from "1.IH"[OF kD Inr[unfolded p] refl None this] b show ?thesis by simp
      next
        case (Some t)
        with "1.prems" kD Inr p have "W = Vf'"
          by (subst (asm) forward_loop.simps) simp
        with b show ?thesis by simp
      qed
    qed
  qed
qed

lemma backward_loop_bounds:
  "backward_loop old N new M Delta D k Vf Vb = Inr (Vb', r) \<Longrightarrow>
   V_start Vb' = V_start Vb \<and> V_end Vb' = V_end Vb \<and> length (V_i Vb') = length (V_i Vb)"
proof (induction old N new M Delta D k Vf Vb rule: backward_loop.induct)
  case (1 old N new M Delta D k Vf Vb)
  show ?case
  proof (cases "k \<le> D")
    case False
    with "1.prems" show ?thesis by (subst (asm) backward_loop.simps) simp
  next
    case kD: True
    show ?thesis
    proof (cases "backward_body old N new M Delta D k Vf Vb")
      case (Inl e)
      with "1.prems" kD show ?thesis by (subst (asm) backward_loop.simps) simp
    next
      case (Inr p)
      obtain W r' where p: "p = (W, r')" by (cases p)
      note b = backward_body_bounds[OF Inr[unfolded p]]
      show ?thesis
      proof (cases r')
        case None
        with "1.prems" kD Inr p have "backward_loop old N new M Delta D (k + 2) Vf W = Inr (Vb', r)"
          by (subst (asm) backward_loop.simps) simp
        from "1.IH"[OF kD Inr[unfolded p] refl None this] b show ?thesis by simp
      next
        case (Some t)
        with "1.prems" kD Inr p have "W = Vb'"
          by (subst (asm) backward_loop.simps) simp
        with b show ?thesis by simp
      qed
    qed
  qed
qed

lemma D_loop_bounds:
  "D_loop old N new M Delta MAX' D Vf Vb = Inr (r, Vf', Vb') \<Longrightarrow>
   (V_start Vf' = V_start Vf \<and> V_end Vf' = V_end Vf \<and> length (V_i Vf') = length (V_i Vf)) \<and>
   (V_start Vb' = V_start Vb \<and> V_end Vb' = V_end Vb \<and> length (V_i Vb') = length (V_i Vb))"
proof (induction old N new M Delta MAX' D Vf Vb rule: D_loop.induct)
  case (1 old N new M Delta MAX' D Vf Vb)
  show ?case
  proof (cases "real_of_int D \<le> real_of_int \<lceil>real_of_int MAX' / 2\<rceil>")
    case False
    with "1.prems" show ?thesis by (subst (asm) D_loop.simps) simp
  next
    case b: True
    show ?thesis
    proof (cases "forward_loop old N new M Delta D (- D) Vf Vb")
      case (Inl e)
      with "1.prems" b show ?thesis by (subst (asm) D_loop.simps) simp
    next
      case fw: (Inr p)
      obtain W r1 where p: "p = (W, r1)" by (cases p)
      note fb = forward_loop_bounds[OF fw[unfolded p]]
      show ?thesis
      proof (cases r1)
        case (Some t)
        with "1.prems" b fw p have "W = Vf'" "Vb = Vb'"
          by (subst (asm) D_loop.simps, simp)+
        with fb show ?thesis by simp
      next
        case fNone: None
        show ?thesis
        proof (cases "backward_loop old N new M Delta D (- D) W Vb")
          case (Inl e)
          with "1.prems" b fw p fNone show ?thesis by (subst (asm) D_loop.simps) simp
        next
          case bw: (Inr q)
          obtain W' r2 where q: "q = (W', r2)" by (cases q)
          note bb = backward_loop_bounds[OF bw[unfolded q]]
          show ?thesis
          proof (cases r2)
            case (Some t)
            with "1.prems" b fw p fNone bw q have "W = Vf'" "W' = Vb'"
              by (subst (asm) D_loop.simps, simp)+
            with fb bb show ?thesis by simp
          next
            case None
            with "1.prems" b fw p fNone bw q
            have "D_loop old N new M Delta MAX' (D + 1) W W' = Inr (r, Vf', Vb')"
              by (subst (asm) D_loop.simps) simp
            from "1.IH"[OF b fw[unfolded p] refl fNone bw[unfolded q] refl None this] fb bb
            show ?thesis by simp
          qed
        qed
      qed
    qed
  qed
qed

text \<open>
  Claim C4, as amended. The two arrays are static: a call of \<^verbatim>\<open>FindMiddleSnake\<close>
  that finds them not yet constructed constructs them for the index range
  \<open>[- MAX, MAX]\<close> of its own \<open>MAX = M + N\<close>; every other call works on the arrays the
  earlier calls left, and leaves arrays of the same bounds and the same size behind.
\<close>

theorem static_arrays_shared:
  "static_V None MAX' = (V_new (- MAX') MAX', V_new (- MAX') MAX')
   \<and> static_V (Some (Vf, Vb)) MAX' = (Vf, Vb)
   \<and> (FindMiddleSnake old N new M st = Inr (t, st') \<longrightarrow>
        (\<exists>Vf' Vb'. st' = Some (Vf', Vb') \<and>
           V_start Vf' = V_start (fst (static_V st (M + N))) \<and>
           V_end Vf' = V_end (fst (static_V st (M + N))) \<and>
           length (V_i Vf') = length (V_i (fst (static_V st (M + N)))) \<and>
           V_start Vb' = V_start (snd (static_V st (M + N))) \<and>
           V_end Vb' = V_end (snd (static_V st (M + N))) \<and>
           length (V_i Vb') = length (V_i (snd (static_V st (M + N))))))"
proof (intro conjI impI)
  show "static_V None MAX' = (V_new (- MAX') MAX', V_new (- MAX') MAX')"
    by (simp add: static_V_def)
  show "static_V (Some (Vf, Vb)) MAX' = (Vf, Vb)"
    by (simp add: static_V_def)
next
  assume "FindMiddleSnake old N new M st = Inr (t, st')"
  from FindMiddleSnake_Inr[OF this] obtain Vf0 Vb0 r Vf' Vb' where
    a: "V_set (fst (static_V st (M + N))) 1 0 = Inr Vf0"
    and b: "V_set (snd (static_V st (M + N))) 1 0 = Inr Vb0"
    and dl: "D_loop old N new M (N - M) (M + N) 0 Vf0 Vb0 = Inr (r, Vf', Vb')"
    and st': "st' = Some (Vf', Vb')"
    by blast
  from V_set_bounds[OF a] V_set_bounds[OF b] D_loop_bounds[OF dl] st'
  show "\<exists>Vf' Vb'. st' = Some (Vf', Vb') \<and>
           V_start Vf' = V_start (fst (static_V st (M + N))) \<and>
           V_end Vf' = V_end (fst (static_V st (M + N))) \<and>
           length (V_i Vf') = length (V_i (fst (static_V st (M + N)))) \<and>
           V_start Vb' = V_start (snd (static_V st (M + N))) \<and>
           V_end Vb' = V_end (snd (static_V st (M + N))) \<and>
           length (V_i Vb') = length (V_i (snd (static_V st (M + N))))"
    by simp
qed

lemma run_1_2:
  "FindMiddleSnake ([1], 0) 1 ([2], 0) 1 None =
     Inr ((2, 1, 0, 1, 0),
          Some (\<lparr>V_start = - 2, V_end = 2, V_i = [None, Some 0, Some 0, Some 1, None]\<rparr>,
                \<lparr>V_start = - 2, V_end = 2, V_i = [None, Some 0, Some 0, Some 0, None]\<rparr>))"
  by code_simp

lemma run_12_2:
  "FindMiddleSnake ([1, 2], 0) 2 ([2], 0) 1 None =
     Inr ((1, 1, 0, 2, 1),
          Some (\<lparr>V_start = - 3, V_end = 3, V_i = [None, None, Some 0, Some 0, Some 2, None, None]\<rparr>,
                \<lparr>V_start = - 3, V_end = 3, V_i = [None, None, None, Some 1, Some 0, None, None]\<rparr>))"
  by code_simp

theorem snake_on_one_diagonal_witness:
  "FindMiddleSnake ([1, 2], 0) 2 ([2], 0) 1 None =
     Inr ((1, 1, 0, 2, 1),
          Some (\<lparr>V_start = - 3, V_end = 3, V_i = [None, None, Some 0, Some 0, Some 2, None, None]\<rparr>,
                \<lparr>V_start = - 3, V_end = 3, V_i = [None, None, None, Some 1, Some 0, None, None]\<rparr>))
   \<and> (1::int) - 0 = 2 - 1
   \<and> (((1::int) > 1 \<or> ((1::int) \<noteq> 2 \<and> (0::int) \<noteq> 1)) \<longleftrightarrow> ((1::int) > 1 \<or> (1::int) \<noteq> 2))"
  using snake_on_one_diagonal[OF run_12_2] run_12_2 by blast

theorem static_arrays_shared_witness:
  "FindMiddleSnake ([1], 0) 1 ([2], 0) 1 None =
     Inr ((2, 1, 0, 1, 0),
          Some (\<lparr>V_start = - 2, V_end = 2, V_i = [None, Some 0, Some 0, Some 1, None]\<rparr>,
                \<lparr>V_start = - 2, V_end = 2, V_i = [None, Some 0, Some 0, Some 0, None]\<rparr>))
   \<and> V_start (fst (static_V None (1 + 1))) = - 2"
  using static_arrays_shared[of 0 undefined undefined "([1], 0)" 1 "([2], 0)" 1 None
      "(2, 1, 0, 1, 0)"
      "Some (\<lparr>V_start = - 2, V_end = 2, V_i = [None, Some 0, Some 0, Some 1, None]\<rparr>,
                \<lparr>V_start = - 2, V_end = 2, V_i = [None, Some 0, Some 0, Some 0, None]\<rparr>)"]
    run_1_2
  by simp

text \<open>
  Claim C4 as stated fails. After the call on \<open>[1]\<close> and \<open>[2]\<close>, the call on
  \<open>[1, 1]\<close> and \<open>[1, 1]\<close> (whose own \<open>MAX\<close> is 4) runs on the arrays of bounds
  \<open>[-2, 2]\<close> that the first call allocated, and the cell of index \<open>-1\<close> still holds the
  value the first call wrote; the same call with no call before it allocates
  arrays of bounds \<open>[-4, 4]\<close>.
\<close>

theorem fresh_arrays_counterexample:
  "FindMiddleSnake ([1], 0) 1 ([2], 0) 1 None =
     Inr ((2, 1, 0, 1, 0),
          Some (\<lparr>V_start = - 2, V_end = 2, V_i = [None, Some 0, Some 0, Some 1, None]\<rparr>,
                \<lparr>V_start = - 2, V_end = 2, V_i = [None, Some 0, Some 0, Some 0, None]\<rparr>))
   \<and> FindMiddleSnake ([1, 1], 0) 2 ([1, 1], 0) 2
        (Some (\<lparr>V_start = - 2, V_end = 2, V_i = [None, Some 0, Some 0, Some 1, None]\<rparr>,
               \<lparr>V_start = - 2, V_end = 2, V_i = [None, Some 0, Some 0, Some 0, None]\<rparr>)) =
     Inr ((0, 0, 0, 2, 2),
          Some (\<lparr>V_start = - 2, V_end = 2, V_i = [None, Some 0, Some 2, Some 0, None]\<rparr>,
                \<lparr>V_start = - 2, V_end = 2, V_i = [None, Some 0, Some 2, Some 0, None]\<rparr>))
   \<and> FindMiddleSnake ([1, 1], 0) 2 ([1, 1], 0) 2 None =
     Inr ((0, 0, 0, 2, 2),
          Some (\<lparr>V_start = - 4, V_end = 4,
                  V_i = [None, None, None, None, Some 2, Some 0, None, None, None]\<rparr>,
                \<lparr>V_start = - 4, V_end = 4,
                  V_i = [None, None, None, None, Some 2, Some 0, None, None, None]\<rparr>))"
  by code_simp

text \<open>
  Claim C7. The diff of \<open>[1, 2, 3]\<close> and \<open>[4, 5, 6]\<close> as the first call of a process
  yields three deletions and three insertions. After a diff of \<open>[1]\<close> and \<open>[2]\<close>,
  which leaves static arrays of bounds \<open>[-2, 2]\<close>, the same call writes the cell of
  index \<open>-3\<close>, outside the arrays: the output of the call depends on the calls
  before it.
\<close>

theorem later_call_overruns_static_arrays:
  "ShortestEditScript 7 ([1, 2, 3], 0) 3 ([4, 5, 6], 0) 3 0 0 None =
     Some (Inr ({#(0, ''add''), (0, ''del''), (1, ''add''), (1, ''del''), (2, ''add''), (2, ''del'')#},
       Some (\<lparr>V_start = - 6, V_end = 6,
               V_i = [None, None, None, Some 0, Some 0, Some 1, Some 1, Some 2, Some 2, Some 3,
                      None, None, None]\<rparr>,
             \<lparr>V_start = - 6, V_end = 6,
               V_i = [None, None, None, Some 0, Some 0, Some 0, Some 1, Some 1, Some 2, None,
                      None, None, None]\<rparr>)))
   \<and> ShortestEditScript 3 ([1], 0) 1 ([2], 0) 1 0 0 None =
     Some (Inr ({#(0, ''add''), (0, ''del'')#},
       Some (\<lparr>V_start = - 2, V_end = 2, V_i = [None, Some 0, Some 0, Some 1, None]\<rparr>,
             \<lparr>V_start = - 2, V_end = 2, V_i = [None, Some 0, Some 0, Some 0, None]\<rparr>)))
   \<and> ShortestEditScript 7 ([1, 2, 3], 0) 3 ([4, 5, 6], 0) 3 0 0
       (Some (\<lparr>V_start = - 2, V_end = 2, V_i = [None, Some 0, Some 0, Some 1, None]\<rparr>,
              \<lparr>V_start = - 2, V_end = 2, V_i = [None, Some 0, Some 0, Some 0, None]\<rparr>)) =
     Some (Inl OutOfBounds)"
  by code_simp

subsection \<open>The return statements\<close>

lemma forward_loop_return:
  "k \<le> D \<Longrightarrow> forward_body old N new M Delta D k Vf Vb = Inr (Vf', Some t) \<Longrightarrow>
   forward_loop old N new M Delta D k Vf Vb = Inr (Vf', Some t)"
  by (subst forward_loop.simps) simp

lemma backward_loop_return:
  "k \<le> D \<Longrightarrow> backward_body old N new M Delta D k Vf Vb = Inr (Vb', Some t) \<Longrightarrow>
   backward_loop old N new M Delta D k Vf Vb = Inr (Vb', Some t)"
  by (subst backward_loop.simps) simp

lemma FindMiddleSnake_of_D_loop:
  assumes "V_set (fst (static_V st (M + N))) 1 0 = Inr Vf0"
    and "V_set (snd (static_V st (M + N))) 1 0 = Inr Vb0"
    and "D_loop old N new M (N - M) (M + N) 0 Vf0 Vb0 = Inr (r, Vf', Vb')"
  shows "FindMiddleSnake old N new M st =
           Inr (case r of Some t \<Rightarrow> t | None \<Rightarrow> (0, 0, 0, 0, 0), Some (Vf', Vb'))"
  using assms by (simp add: FindMiddleSnake_def Let_def split: option.splits)

text \<open>
  Claim C5. In the forward pass of round \<open>D\<close>, on diagonal \<open>k\<close>: when \<open>Delta\<close> is
  odd, \<open>- (k - Delta)\<close> lies in \<open>[- (D - 1), D - 1]\<close> and
  \<open>Vf[k] + Vb[- (k - Delta)] \<ge> N\<close>, the iteration returns the tuple
  \<open>(2 * D - 1, x_i, y_i, x, y)\<close>, where \<open>(x_i, y_i)\<close> is the point before the snake and
  \<open>(x, y)\<close> the point after it. In the backward pass: when \<open>Delta\<close> is even,
  \<open>- (k - Delta)\<close> lies in \<open>[- D, D]\<close> and \<open>Vb[k] + Vf[- (k - Delta)] \<ge> N\<close>, the
  iteration returns \<open>(2 * D, N - x, M - y, N - x_i, M - y_i)\<close>. A tuple returned by an
  iteration ends the loop over \<open>k\<close> and the loop over \<open>D\<close>, and is the value of
  \<^verbatim>\<open>FindMiddleSnake\<close>.
\<close>

theorem overlap_check_returns:
  "(pick_x Vf D k = Inr x_i \<and> snake_fwd old N new M x_i (x_i - k) = Inr (x, y) \<and>
    V_set Vf k x = Inr Vf' \<and> odd Delta \<and> - (D - 1) \<le> - (k - Delta) \<and> - (k - Delta) \<le> D - 1 \<and>
    V_get Vf' k = Inr a \<and> V_get Vb (- (k - Delta)) = Inr b \<and> N \<le> a + b \<and> k \<le> D \<longrightarrow>
      forward_body old N new M Delta D k Vf Vb = Inr (Vf', Some (2 * D - 1, x_i, x_i - k, x, y)) \<and>
      forward_loop old N new M Delta D k Vf Vb = Inr (Vf', Some (2 * D - 1, x_i, x_i - k, x, y)))
   \<and> (pick_x Vb D k = Inr x_i \<and> snake_bwd old N new M x_i (x_i - k) = Inr (x, y) \<and>
    V_set Vb k x = Inr Vb' \<and> even Delta \<and> - D \<le> - (k - Delta) \<and> - (k - Delta) \<le> D \<and>
    V_get Vb' k = Inr a \<and> V_get Vf (- (k - Delta)) = Inr b \<and> N \<le> a + b \<and> k \<le> D \<longrightarrow>
      backward_body old N new M Delta D k Vf Vb =
        Inr (Vb', Some (2 * D, N - x, M - y, N - x_i, M - (x_i - k))) \<and>
      backward_loop old N new M Delta D k Vf Vb =
        Inr (Vb', Some (2 * D, N - x, M - y, N - x_i, M - (x_i - k))))
   \<and> (real_of_int D \<le> real_of_int \<lceil>real_of_int MAX' / 2\<rceil> \<and>
      forward_loop old N new M Delta D (- D) Vf Vb = Inr (Vf', Some t) \<longrightarrow>
        D_loop old N new M Delta MAX' D Vf Vb = Inr (Some t, Vf', Vb))
   \<and> (real_of_int D \<le> real_of_int \<lceil>real_of_int MAX' / 2\<rceil> \<and>
      forward_loop old N new M Delta D (- D) Vf Vb = Inr (Vf', None) \<and>
      backward_loop old N new M Delta D (- D) Vf' Vb = Inr (Vb', Some t) \<longrightarrow>
        D_loop old N new M Delta MAX' D Vf Vb = Inr (Some t, Vf', Vb'))
   \<and> (V_set (fst (static_V st (M + N))) 1 0 = Inr Vf0 \<and>
      V_set (snd (static_V st (M + N))) 1 0 = Inr Vb0 \<and>
      D_loop old N new M (N - M) (M + N) 0 Vf0 Vb0 = Inr (Some t, Vf', Vb') \<longrightarrow>
        FindMiddleSnake old N new M st = Inr (t, Some (Vf', Vb')))"
proof (intro conjI impI)
  assume h: "pick_x Vf D k = Inr x_i \<and> snake_fwd old N new M x_i (x_i - k) = Inr (x, y) \<and>
    V_set Vf k x = Inr Vf' \<and> odd Delta \<and> - (D - 1) \<le> - (k - Delta) \<and> - (k - Delta) \<le> D - 1 \<and>
    V_get Vf' k = Inr a \<and> V_get Vb (- (k - Delta)) = Inr b \<and> N \<le> a + b \<and> k \<le> D"
  then show fb: "forward_body old N new M Delta D k Vf Vb =
      Inr (Vf', Some (2 * D - 1, x_i, x_i - k, x, y))"
    by (simp add: forward_body_def smod2_odd)
  from h fb show "forward_loop old N new M Delta D k Vf Vb =
      Inr (Vf', Some (2 * D - 1, x_i, x_i - k, x, y))"
    by (intro forward_loop_return) simp_all
next
  assume h: "pick_x Vb D k = Inr x_i \<and> snake_bwd old N new M x_i (x_i - k) = Inr (x, y) \<and>
    V_set Vb k x = Inr Vb' \<and> even Delta \<and> - D \<le> - (k - Delta) \<and> - (k - Delta) \<le> D \<and>
    V_get Vb' k = Inr a \<and> V_get Vf (- (k - Delta)) = Inr b \<and> N \<le> a + b \<and> k \<le> D"
  then show bb: "backward_body old N new M Delta D k Vf Vb =
        Inr (Vb', Some (2 * D, N - x, M - y, N - x_i, M - (x_i - k)))"
    by (simp add: backward_body_def smod2_even)
  from h bb show "backward_loop old N new M Delta D k Vf Vb =
        Inr (Vb', Some (2 * D, N - x, M - y, N - x_i, M - (x_i - k)))"
    by (intro backward_loop_return) simp_all
next
  assume "real_of_int D \<le> real_of_int \<lceil>real_of_int MAX' / 2\<rceil> \<and>
      forward_loop old N new M Delta D (- D) Vf Vb = Inr (Vf', Some t)"
  then show "D_loop old N new M Delta MAX' D Vf Vb = Inr (Some t, Vf', Vb)"
    by (subst D_loop.simps) simp
next
  assume "real_of_int D \<le> real_of_int \<lceil>real_of_int MAX' / 2\<rceil> \<and>
      forward_loop old N new M Delta D (- D) Vf Vb = Inr (Vf', None) \<and>
      backward_loop old N new M Delta D (- D) Vf' Vb = Inr (Vb', Some t)"
  then show "D_loop old N new M Delta MAX' D Vf Vb = Inr (Some t, Vf', Vb')"
    by (subst D_loop.simps) simp
next
  assume "V_set (fst (static_V st (M + N))) 1 0 = Inr Vf0 \<and>
      V_set (snd (static_V st (M + N))) 1 0 = Inr Vb0 \<and>
      D_loop old N new M (N - M) (M + N) 0 Vf0 Vb0 = Inr (Some t, Vf', Vb')"
  then show "FindMiddleSnake old N new M st = Inr (t, Some (Vf', Vb'))"
    using FindMiddleSnake_of_D_loop[of st M N Vf0 Vb0 old new "Some t" Vf' Vb'] by simp
qed

theorem overlap_check_returns_witness:
  "forward_loop ([1, 2], 0) 2 ([2], 0) 1 1 1 1
     \<lparr>V_start = - 3, V_end = 3, V_i = [None, None, Some 0, Some 0, Some 0, None, None]\<rparr>
     \<lparr>V_start = - 3, V_end = 3, V_i = [None, None, None, Some 1, Some 0, None, None]\<rparr> =
   Inr (\<lparr>V_start = - 3, V_end = 3, V_i = [None, None, Some 0, Some 0, Some 2, None, None]\<rparr>,
        Some (2 * 1 - 1, 1, 1 - 1, 2, 1))
   \<and> backward_loop ([1], 0) 1 ([2], 0) 1 0 1 (- 1)
     \<lparr>V_start = - 2, V_end = 2, V_i = [None, Some 0, Some 0, Some 1, None]\<rparr>
     \<lparr>V_start = - 2, V_end = 2, V_i = [None, None, Some 0, Some 0, None]\<rparr> =
   Inr (\<lparr>V_start = - 2, V_end = 2, V_i = [None, Some 0, Some 0, Some 0, None]\<rparr>,
        Some (2 * 1, 1 - 0, 1 - 1, 1 - 0, 1 - (0 - (- 1))))"
proof -
  let ?Vf = "\<lparr>V_start = - 3, V_end = 3, V_i = [None, None, Some 0, Some 0, Some 0, None, None]\<rparr>"
  let ?Vb = "\<lparr>V_start = - 3, V_end = 3, V_i = [None, None, None, Some 1, Some 0, None, None]\<rparr>"
  let ?Vf' = "\<lparr>V_start = - 3, V_end = 3, V_i = [None, None, Some 0, Some 0, Some 2, None, None]\<rparr>"
  let ?Wf = "\<lparr>V_start = - 2, V_end = 2, V_i = [None, Some 0, Some 0, Some 1, None]\<rparr>"
  let ?Wb = "\<lparr>V_start = - 2, V_end = 2, V_i = [None, None, Some 0, Some 0, None]\<rparr>"
  let ?Wb' = "\<lparr>V_start = - 2, V_end = 2, V_i = [None, Some 0, Some 0, Some 0, None]\<rparr>"
  have f: "pick_x ?Vf 1 1 = Inr 1 \<and> snake_fwd ([1, 2], 0) 2 ([2], 0) 1 1 (1 - 1) = Inr (2, 1) \<and>
    V_set ?Vf 1 2 = Inr ?Vf' \<and> odd (1::int) \<and> - (1 - 1) \<le> - (1 - (1::int)) \<and>
    - (1 - 1) \<le> 1 - (1::int) \<and>
    V_get ?Vf' 1 = Inr 2 \<and> V_get ?Vb (- (1 - 1)) = Inr 1 \<and> (2::int) \<le> 2 + 1 \<and> (1::int) \<le> 1"
    by code_simp
  have b: "pick_x ?Wb 1 (- 1) = Inr 0 \<and> snake_bwd ([1], 0) 1 ([2], 0) 1 0 (0 - (- 1)) = Inr (0, 1) \<and>
    V_set ?Wb (- 1) 0 = Inr ?Wb' \<and> even (0::int) \<and> - 1 \<le> - (- 1 - (0::int)) \<and>
    - (- 1 - 0) \<le> (1::int) \<and>
    V_get ?Wb' (- 1) = Inr 0 \<and> V_get ?Wf (- (- 1 - 0)) = Inr 1 \<and> (1::int) \<le> 0 + 1 \<and> (- 1::int) \<le> 1"
    by code_simp
  from overlap_check_returns[where Vf = ?Vf and D = 1 and k = 1 and x_i = 1
      and old = "([1, 2], 0)" and N = 2 and new = "([2], 0)" and M = 1 and x = 2 and y = 1
      and Vf' = ?Vf' and Delta = 1 and a = 2 and Vb = ?Vb and b = 1]
    f
  have 1: "forward_loop ([1, 2], 0) 2 ([2], 0) 1 1 1 1 ?Vf ?Vb = Inr (?Vf', Some (2 * 1 - 1, 1, 1 - 1, 2, 1))"
    by blast
  from overlap_check_returns[where Vb = ?Wb and D = 1 and k = "- 1" and x_i = 0
      and old = "([1], 0)" and N = 1 and new = "([2], 0)" and M = 1 and x = 0 and y = 1
      and Vb' = ?Wb' and Delta = 0 and a = 0 and Vf = ?Wf and b = 1]
    b
  have 2: "backward_loop ([1], 0) 1 ([2], 0) 1 0 1 (- 1) ?Wf ?Wb =
    Inr (?Wb', Some (2 * 1, 1 - 0, 1 - 1, 1 - 0, 1 - (0 - (- 1))))"
    by blast
  from 1 2 show ?thesis by blast
qed

text \<open>
  Claim C10. A tuple returned by the forward overlap check is returned with \<open>Delta\<close>
  odd and has the odd first component \<open>2 * D - 1\<close>; a tuple returned by the backward
  check is returned with \<open>Delta\<close> even and has the even first component \<open>2 * D\<close>. So
  whenever \<^verbatim>\<open>FindMiddleSnake\<close> returns from inside its loop, the parity of the edit
  distance it returns is the parity of \<open>N - M\<close>.
\<close>

theorem overlap_return_parity:
  "(forward_body old N new M Delta D k Vf Vb = Inr (W, Some (d, x, y, u, v)) \<longrightarrow>
      odd Delta \<and> d = 2 * D - 1)
   \<and> (backward_body old N new M Delta D k Vf Vb = Inr (W, Some (d, x, y, u, v)) \<longrightarrow>
      even Delta \<and> d = 2 * D)
   \<and> (V_set (fst (static_V st (M + N))) 1 0 = Inr Vf0 \<and>
      V_set (snd (static_V st (M + N))) 1 0 = Inr Vb0 \<and>
      D_loop old N new M (N - M) (M + N) 0 Vf0 Vb0 = Inr (Some (d, x, y, u, v), Vf', Vb') \<longrightarrow>
        FindMiddleSnake old N new M st = Inr ((d, x, y, u, v), Some (Vf', Vb')) \<and>
        (even d \<longleftrightarrow> even (N - M)))"
proof (intro conjI impI)
  assume "forward_body old N new M Delta D k Vf Vb = Inr (W, Some (d, x, y, u, v))"
  from forward_body_Some[OF this] show "odd Delta" "d = 2 * D - 1" by simp_all
next
  assume "backward_body old N new M Delta D k Vf Vb = Inr (W, Some (d, x, y, u, v))"
  from backward_body_Some[OF this] show "even Delta" "d = 2 * D" by simp_all
next
  assume h: "V_set (fst (static_V st (M + N))) 1 0 = Inr Vf0 \<and>
      V_set (snd (static_V st (M + N))) 1 0 = Inr Vb0 \<and>
      D_loop old N new M (N - M) (M + N) 0 Vf0 Vb0 = Inr (Some (d, x, y, u, v), Vf', Vb')"
  then show "FindMiddleSnake old N new M st = Inr ((d, x, y, u, v), Some (Vf', Vb'))"
    using FindMiddleSnake_of_D_loop[of st M N Vf0 Vb0 old new "Some (d, x, y, u, v)" Vf' Vb']
    by simp
  from h D_loop_Some[of old N new M "N - M" "M + N" 0 Vf0 Vb0 "(d, x, y, u, v)" Vf' Vb']
  obtain D' k' W1 W2 W3 where
    "forward_body old N new M (N - M) D' k' W1 W2 = Inr (W3, Some (d, x, y, u, v)) \<or>
     backward_body old N new M (N - M) D' k' W1 W2 = Inr (W3, Some (d, x, y, u, v))"
    by blast
  then show "even d \<longleftrightarrow> even (N - M)"
  proof
    assume "forward_body old N new M (N - M) D' k' W1 W2 = Inr (W3, Some (d, x, y, u, v))"
    from forward_body_Some[OF this] show ?thesis by simp
  next
    assume "backward_body old N new M (N - M) D' k' W1 W2 = Inr (W3, Some (d, x, y, u, v))"
    from backward_body_Some[OF this] show ?thesis by simp
  qed
qed

theorem overlap_return_parity_witness:
  "FindMiddleSnake ([1], 0) 1 ([2], 0) 1 None =
     Inr ((2, 1, 0, 1, 0),
          Some (\<lparr>V_start = - 2, V_end = 2, V_i = [None, Some 0, Some 0, Some 1, None]\<rparr>,
                \<lparr>V_start = - 2, V_end = 2, V_i = [None, Some 0, Some 0, Some 0, None]\<rparr>))
   \<and> (even (2::int) \<longleftrightarrow> even (1 - 1::int))
   \<and> FindMiddleSnake ([1, 2], 0) 2 ([2], 0) 1 None =
     Inr ((1, 1, 0, 2, 1),
          Some (\<lparr>V_start = - 3, V_end = 3, V_i = [None, None, Some 0, Some 0, Some 2, None, None]\<rparr>,
                \<lparr>V_start = - 3, V_end = 3, V_i = [None, None, None, Some 1, Some 0, None, None]\<rparr>))
   \<and> (even (1::int) \<longleftrightarrow> even (2 - 1::int))"
proof -
  let ?Ia = "\<lparr>V_start = - 2, V_end = 2, V_i = [None, None, None, Some 0, None]\<rparr>"
  let ?Vf' = "\<lparr>V_start = - 2, V_end = 2, V_i = [None, Some 0, Some 0, Some 1, None]\<rparr>"
  let ?Vb' = "\<lparr>V_start = - 2, V_end = 2, V_i = [None, Some 0, Some 0, Some 0, None]\<rparr>"
  let ?Ja = "\<lparr>V_start = - 3, V_end = 3, V_i = [None, None, None, None, Some 0, None, None]\<rparr>"
  let ?Wf' = "\<lparr>V_start = - 3, V_end = 3, V_i = [None, None, Some 0, Some 0, Some 2, None, None]\<rparr>"
  let ?Wb' = "\<lparr>V_start = - 3, V_end = 3, V_i = [None, None, None, Some 1, Some 0, None, None]\<rparr>"
  have e: "V_set (fst (static_V None (1 + 1))) 1 0 = Inr ?Ia \<and>
      V_set (snd (static_V None (1 + 1))) 1 0 = Inr ?Ia \<and>
      D_loop ([1], 0) 1 ([2], 0) 1 (1 - 1) (1 + 1) 0 ?Ia ?Ia = Inr (Some (2, 1, 0, 1, 0), ?Vf', ?Vb')"
    by code_simp
  have o: "V_set (fst (static_V None (1 + 2))) 1 0 = Inr ?Ja \<and>
      V_set (snd (static_V None (1 + 2))) 1 0 = Inr ?Ja \<and>
      D_loop ([1, 2], 0) 2 ([2], 0) 1 (2 - 1) (1 + 2) 0 ?Ja ?Ja = Inr (Some (1, 1, 0, 2, 1), ?Wf', ?Wb')"
    by code_simp
  from overlap_return_parity[where st = None and M = 1 and N = 1 and ?Vf0.0 = ?Ia and ?Vb0.0 = ?Ia
      and old = "([1], 0)" and new = "([2], 0)" and d = 2 and x = 1 and y = 0 and u = 1 and v = 0
      and Vf' = ?Vf' and Vb' = ?Vb'] e
  have 1: "FindMiddleSnake ([1], 0) 1 ([2], 0) 1 None = Inr ((2, 1, 0, 1, 0), Some (?Vf', ?Vb'))
      \<and> (even (2::int) \<longleftrightarrow> even (1 - 1::int))"
    by blast
  from overlap_return_parity[where st = None and M = 1 and N = 2 and ?Vf0.0 = ?Ja and ?Vb0.0 = ?Ja
      and old = "([1, 2], 0)" and new = "([2], 0)" and d = 1 and x = 1 and y = 0 and u = 2 and v = 1
      and Vf' = ?Wf' and Vb' = ?Wb'] o
  have 2: "FindMiddleSnake ([1, 2], 0) 2 ([2], 0) 1 None = Inr ((1, 1, 0, 2, 1), Some (?Wf', ?Wb'))
      \<and> (even (1::int) \<longleftrightarrow> even (2 - 1::int))"
    by blast
  from 1 2 show ?thesis by blast
qed




subsection \<open>Longest common subsequences\<close>

lemma lcs_Nil2 [simp]: "lcs xs [] = 0"
  by (cases xs) simp_all

lemma lcs_sym: "lcs xs ys = lcs ys xs"
  by (induction xs ys rule: lcs.induct) (simp_all add: max.commute)

lemma lcs_step:
  "lcs xs ys \<le> lcs (x # xs) ys \<and> lcs xs (y # ys) \<le> Suc (lcs xs ys)"
proof (induction "length xs + length ys" arbitrary: xs ys x y rule: less_induct)
  case less
  have 1: "lcs xs ys \<le> lcs (x # xs) ys"
  proof (cases ys)
    case Nil
    then show ?thesis by simp
  next
    case (Cons y' ys')
    have "lcs xs (y' # ys') \<le> Suc (lcs xs ys')"
      using less[of xs ys'] Cons by simp
    then show ?thesis using Cons by simp
  qed
  have 2: "lcs xs (y # ys) \<le> Suc (lcs xs ys)"
  proof (cases xs)
    case Nil
    then show ?thesis by simp
  next
    case (Cons x' xs')
    have a: "lcs xs' ys \<le> lcs (x' # xs') ys"
      using less[of xs' ys] Cons by simp
    have b: "lcs xs' (y # ys) \<le> Suc (lcs xs' ys)"
      using less[of xs' ys] Cons by simp
    show ?thesis using a b Cons by auto
  qed
  from 1 2 show ?case by simp
qed

lemma lcs_Cons1_ge: "lcs xs ys \<le> lcs (x # xs) ys"
  using lcs_step by blast

lemma lcs_Cons2_ge: "lcs xs ys \<le> lcs xs (y # ys)"
  using lcs_Cons1_ge[of ys xs y] by (simp add: lcs_sym)

lemma lcs_append1_ge: "lcs xs ys \<le> lcs (zs @ xs) ys"
  by (induction zs) (simp_all add: le_trans[OF _ lcs_Cons1_ge])

lemma lcs_append2_ge: "lcs xs ys \<le> lcs xs (zs @ ys)"
  using lcs_append1_ge[of ys xs zs] by (simp add: lcs_sym)

lemma lcs_superadditive: "lcs xs ys + lcs xs' ys' \<le> lcs (xs @ xs') (ys @ ys')"
proof (induction xs ys rule: lcs.induct)
  case (1 ys)
  show ?case using lcs_append2_ge[of xs' ys' ys] by simp
next
  case (2 x xs)
  show ?case using lcs_append1_ge[of xs' ys' "x # xs"] by simp
next
  case (3 x xs y ys)
  show ?case
  proof (cases "x = y")
    case True
    with 3 show ?thesis by simp
  next
    case False
    with 3 show ?thesis by (auto simp: max_def)
  qed
qed




lemma lcs_snoc_eq: "Suc (lcs xs ys) \<le> lcs (xs @ [c]) (ys @ [c])"
  using lcs_superadditive[of xs ys "[c]" "[c]"] by simp

lemma lcs_snoc1_ge: "lcs xs ys \<le> lcs (xs @ [c]) ys"
  using lcs_superadditive[of xs ys "[c]" "[]"] by simp

lemma lcs_snoc2_ge: "lcs xs ys \<le> lcs xs (ys @ [c])"
  using lcs_superadditive[of xs ys "[]" "[c]"] by simp

subsection \<open>The furthest reaching values are reached, and nothing lies beyond them\<close>



lemma slide_le: "slide a b x y \<le> max x (int (length a))"
proof (induction a b x y rule: slide.induct)
  case (1 a b x y)
  show ?case
  proof (cases "x < int (length a) \<and> y < int (length b) \<and> a ! nat x = b ! nat y")
    case True
    with 1 have "slide a b (x + 1) (y + 1) \<le> max (x + 1) (int (length a))" by simp
    then show ?thesis using True by (subst slide.simps) simp
  next
    case False
    then show ?thesis by (subst slide.simps) auto
  qed
qed

lemma slide_le2: "slide a b x y - (x - y) \<le> max y (int (length b))"
proof (induction a b x y rule: slide.induct)
  case (1 a b x y)
  show ?case
  proof (cases "x < int (length a) \<and> y < int (length b) \<and> a ! nat x = b ! nat y")
    case True
    with 1 have "slide a b (x + 1) (y + 1) - (x + 1 - (y + 1)) \<le> max (y + 1) (int (length b))" by simp
    then show ?thesis using True by (subst slide.simps) simp
  next
    case False
    then show ?thesis by (subst slide.simps) auto
  qed
qed




lemma reach_facts:
  "reach a b d x y \<Longrightarrow> 0 \<le> d \<and> 0 \<le> x \<and> 0 \<le> y \<and> \<bar>x - y\<bar> \<le> d \<and> d \<le> x + y \<and> even (d - (x - y))"
  by (induction rule: reach.induct) auto






subsection \<open>Paths: steps back, points outside the grid, the reversed problem\<close>







lemma reach_down_n: "reach a b d x y \<Longrightarrow> 0 \<le> n \<Longrightarrow> reach a b (d + n) x (y + n)"
proof (induction "nat n" arbitrary: n)
  case 0
  then show ?case by simp
next
  case (Suc m)
  then have "m = nat (n - 1)" "0 \<le> n - 1" by linarith+
  from reach_down[OF Suc.hyps(1)[OF this(1) Suc.prems(1) this(2)]] show ?case
    by (simp add: algebra_simps)
qed

lemma reach_right_n: "reach a b d x y \<Longrightarrow> 0 \<le> n \<Longrightarrow> reach a b (d + n) (x + n) y"
proof (induction "nat n" arbitrary: n)
  case 0
  then show ?case by simp
next
  case (Suc m)
  then have "m = nat (n - 1)" "0 \<le> n - 1" by linarith+
  from reach_right[OF Suc.hyps(1)[OF this(1) Suc.prems(1) this(2)]] show ?case
    by (simp add: algebra_simps)
qed





subsection \<open>Paths and the edit distance\<close>

lemma take_nat_Suc:
  "0 \<le> x \<Longrightarrow> x < int (length a) \<Longrightarrow> take (nat (x + 1)) a = take (nat x) a @ [a ! nat x]"
proof -
  assume h: "0 \<le> x" "x < int (length a)"
  then have "nat (x + 1) = Suc (nat x)" by simp
  then show ?thesis using h by (simp add: take_Suc_conv_app_nth)
qed

lemma reach_lcs:
  "reach a b d x y \<Longrightarrow> x \<le> int (length a) \<Longrightarrow> y \<le> int (length b) \<Longrightarrow>
   x + y \<le> d + 2 * int (lcs (take (nat x) a) (take (nat y) b))"
proof (induction rule: reach.induct)
  case reach_0
  show ?case by simp
next
  case (reach_right d x y)
  note f = reach_facts[OF reach_right.hyps]
  have t: "take (nat (x + 1)) a = take (nat x) a @ [a ! nat x]"
    using f reach_right.prems by (intro take_nat_Suc) simp_all
  have "lcs (take (nat x) a) (take (nat y) b) \<le> lcs (take (nat (x + 1)) a) (take (nat y) b)"
    unfolding t by (rule lcs_snoc1_ge)
  with reach_right show ?case by simp
next
  case (reach_down d x y)
  note f = reach_facts[OF reach_down.hyps]
  have t: "take (nat (y + 1)) b = take (nat y) b @ [b ! nat y]"
    using f reach_down.prems by (intro take_nat_Suc) simp_all
  have "lcs (take (nat x) a) (take (nat y) b) \<le> lcs (take (nat x) a) (take (nat (y + 1)) b)"
    unfolding t by (rule lcs_snoc2_ge)
  with reach_down show ?case by simp
next
  case (reach_diag d x y)
  note f = reach_facts[OF reach_diag.hyps(1)]
  have ta: "take (nat (x + 1)) a = take (nat x) a @ [a ! nat x]"
    using f reach_diag.hyps by (intro take_nat_Suc) simp_all
  have tb: "take (nat (y + 1)) b = take (nat y) b @ [a ! nat x]"
    using f reach_diag.hyps take_nat_Suc[of y b] by simp
  have "Suc (lcs (take (nat x) a) (take (nat y) b)) \<le>
        lcs (take (nat (x + 1)) a) (take (nat (y + 1)) b)"
    unfolding ta tb by (rule lcs_snoc_eq)
  with reach_diag show ?case by simp
qed



lemma ed_le: "ed xs ys \<le> int (length xs) + int (length ys)"
  by (simp add: ed_def)

lemma ed_Nil1 [simp]: "ed [] ys = int (length ys)"
  by (simp add: ed_def)

lemma ed_Nil2 [simp]: "ed xs [] = int (length xs)"
  by (simp add: ed_def)


text \<open>A path for a longest common subsequence, built from the far corner.\<close>

lemma rev_nth_suffix: "rev (pa @ x # xs) ! length xs = x"
  by (simp add: nth_append)

lemma lcs_reach_suffix:
  "a = pa @ xs \<Longrightarrow> b = pb @ ys \<Longrightarrow>
   reach (rev a) (rev b) (ed xs ys) (int (length xs)) (int (length ys))"
proof (induction xs ys arbitrary: pa pb rule: lcs.induct)
  case (1 ys)
  from reach_down_n[OF reach_0, of "int (length ys)" "rev a" "rev b"] show ?case by simp
next
  case (2 x xs)
  from reach_right_n[OF reach_0, of "int (length (x # xs))" "rev a" "rev b"] show ?case by simp
next
  case (3 x xs y ys)
  have a: "a = (pa @ [x]) @ xs" and b: "b = (pb @ [y]) @ ys" using 3 by simp_all
  show ?case
  proof (cases "x = y")
    case True
    have r: "reach (rev a) (rev b) (ed xs ys) (int (length xs)) (int (length ys))"
      using "3.IH"(1)[OF True a b] .
    have "reach (rev a) (rev b) (ed xs ys) (int (length xs) + 1) (int (length ys) + 1)"
    proof (rule reach_diag[OF r])
      show "int (length xs) < int (length (rev a))" using 3 by simp
      show "int (length ys) < int (length (rev b))" using 3 by simp
      show "rev a ! nat (int (length xs)) = rev b ! nat (int (length ys))"
        using True rev_nth_suffix[of pa x xs] rev_nth_suffix[of pb y ys] 3 by simp
    qed
    moreover have "ed (x # xs) (y # ys) = ed xs ys" using True by (simp add: ed_def)
    ultimately show ?thesis by (simp add: algebra_simps)
  next
    case False
    show ?thesis
    proof (cases "lcs xs (y # ys) \<le> lcs (x # xs) ys")
      case True
      have r: "reach (rev a) (rev b) (ed (x # xs) ys) (int (length (x # xs))) (int (length ys))"
        using "3.IH"(2)[OF False "3.prems"(1) b] .
      have "ed (x # xs) (y # ys) = ed (x # xs) ys + 1"
        using False True by (simp add: ed_def max_def)
      with reach_down[OF r] show ?thesis by (simp add: algebra_simps)
    next
      case c: False
      have r: "reach (rev a) (rev b) (ed xs (y # ys)) (int (length xs)) (int (length (y # ys)))"
        using "3.IH"(3)[OF False a "3.prems"(2)] .
      have "ed (x # xs) (y # ys) = ed xs (y # ys) + 1"
        using False c by (simp add: ed_def max_def)
      with reach_right[OF r] show ?thesis by (simp add: algebra_simps)
    qed
  qed
qed

lemma lcs_reach_rev: "reach (rev a) (rev b) (ed a b) (int (length a)) (int (length b))"
  using lcs_reach_suffix[of a "[]" a b "[]" b] by simp

lemma lcs_rev_le: "lcs a b \<le> lcs (rev a) (rev b)"
proof -
  from reach_lcs[OF lcs_reach_rev[of a b]]
  have "int (length a) + int (length b) \<le> ed a b + 2 * int (lcs (rev a) (rev b))" by simp
  then show ?thesis by (simp add: ed_def)
qed

lemma lcs_rev: "lcs (rev a) (rev b) = lcs a b"
  using lcs_rev_le[of a b] lcs_rev_le[of "rev a" "rev b"] by simp

lemma ed_rev: "ed (rev a) (rev b) = ed a b"
  by (simp add: ed_def lcs_rev)

lemma lcs_reach: "reach a b (ed a b) (int (length a)) (int (length b))"
  using lcs_reach_rev[of "rev a" "rev b"] by (simp add: ed_rev)





subsection \<open>Overlapping searches\<close>






subsection \<open>The first successful check\<close>

lemma ed_le_sum: "ed a b \<le> int (length a) + int (length b)"
  by (rule ed_le)






subsection \<open>The returned tuple is a middle snake\<close>








subsection \<open>The loops of FindMiddleSnake compute the furthest reaching values\<close>



lemma same_shape_refl [simp]: "same_shape W W"
  by (simp add: same_shape_def)





lemma V_set_get:
  assumes "V_set W k x = Inr W'"
  shows "V_get W' j = (if j = k then Inr x else V_get W j)" and "same_shape W W'"
proof -
  from assms have r: "0 \<le> k - V_start W" "k - V_start W < int (length (V_i W))"
    and W': "W' = W\<lparr>V_i := (V_i W)[nat (k - V_start W) := Some x]\<rparr>"
    by (auto simp: V_set_def Let_def split: if_splits)
  show "same_shape W W'" by (simp add: W' same_shape_def)
  show "V_get W' j = (if j = k then Inr x else V_get W j)"
  proof (cases "0 \<le> j - V_start W \<and> j - V_start W < int (length (V_i W))")
    case False
    then have "j \<noteq> k" using r by auto
    with False show ?thesis by (auto simp: V_get_def W' Let_def)
  next
    case True
    have "nat (j - V_start W) = nat (k - V_start W) \<longleftrightarrow> j = k" using True r by auto
    with True r show ?thesis by (auto simp: V_get_def W' Let_def nth_list_update)
  qed
qed









lemma round_cells_keep:
  assumes "V_set W k x = Inr W'" "round_cells W a b D m" "odd (D - k) \<or> k < - D \<or> m \<le> k"
  shows "round_cells W' a b D m"
  using assms(2,3) unfolding round_cells_def V_set_get(1)[OF assms(1)] by auto














subsection \<open>Joining the scripts of the two halves\<close>












subsection \<open>ShortestEditScript returns a shortest script\<close>




subsection \<open>Applying a script\<close>











lemma lcs_upper: "subseq zs xs \<Longrightarrow> subseq zs ys \<Longrightarrow> length zs \<le> lcs xs ys"
proof (induction xs ys arbitrary: zs rule: lcs.induct)
  case (1 ys)
  then show ?case by simp
next
  case (2 x xs)
  then show ?case by simp
next
  case (3 x xs y ys)
  show ?case
  proof (cases zs)
    case Nil
    then show ?thesis by simp
  next
    case (Cons z zs')
    show ?thesis
    proof (cases "x = y")
      case True
      have "subseq zs' xs" "subseq zs' ys"
        using "3.prems" Cons by (auto dest: subseq_Cons' split: if_splits)
      from "3.IH"(1)[OF True this] show ?thesis using True Cons by simp
    next
      case False
      show ?thesis
      proof (cases "z = x")
        case True
        with False "3.prems"(2) Cons have "subseq zs ys" by auto
        from "3.IH"(2)[OF False "3.prems"(1) this] show ?thesis using False by simp
      next
        case zx: False
        with "3.prems"(1) Cons have "subseq zs xs" by auto
        from "3.IH"(3)[OF False this "3.prems"(2)] show ?thesis using False by simp
      qed
    qed
  qed
qed

lemma lcs_attained: "\<exists>zs. subseq zs xs \<and> subseq zs ys \<and> length zs = lcs xs ys"
proof (induction xs ys rule: lcs.induct)
  case (1 ys)
  then show ?case by (intro exI[of _ "[]"]) simp
next
  case (2 x xs)
  then show ?case by (intro exI[of _ "[]"]) simp
next
  case (3 x xs y ys)
  show ?case
  proof (cases "x = y")
    case True
    from "3.IH"(1)[OF True] obtain zs where "subseq zs xs" "subseq zs ys" "length zs = lcs xs ys"
      by blast
    then show ?thesis using True by (intro exI[of _ "x # zs"]) simp
  next
    case False
    from "3.IH"(2)[OF False] obtain z1 where
      z1: "subseq z1 (x # xs)" "subseq z1 ys" "length z1 = lcs (x # xs) ys" by blast
    from "3.IH"(3)[OF False] obtain z2 where
      z2: "subseq z2 xs" "subseq z2 (y # ys)" "length z2 = lcs xs (y # ys)" by blast
    show ?thesis
    proof (cases "lcs (x # xs) ys \<le> lcs xs (y # ys)")
      case True
      then show ?thesis using z2 False by (intro exI[of _ z2]) (simp add: max_def list_emb_Cons)
    next
      case le: False
      then show ?thesis using z1 False by (intro exI[of _ z1]) (simp add: max_def list_emb_Cons)
    qed
  qed
qed

subsection \<open>Reconstruction, minimality, totality\<close>

text \<open>
  The three properties are stated for a call of \<^verbatim>\<open>ShortestEditScript\<close> on whole
  sequences \<open>A\<close> and \<open>B\<close> with offsets 0, in a state \<open>st\<close> of the static arrays that fits
  the call: the arrays are not constructed yet (the first call of a process, \<open>None\<close>) or
  cover \<open>[- (N + M), N + M]\<close>. The depth given to the model only has to exceed \<open>N + M\<close>.
\<close>







end
